theory Spec2Isabelle
  imports Complex_Main "HOL-Library.Word" "HOL-Library.AList"
begin

unbundle bit_operations_syntax

section \<open>The KISS framing codec of kiss-tnc (src/index.js)\<close>

text \<open>
  A shallow embedding of \<^verbatim>\<open>src/index.js\<close>. A Buffer, and the array of numbers that
  \<^verbatim>\<open>Array.from\<close> makes of one, is a list of bytes. A method that calls
  \<^verbatim>\<open>this.push\<close> returns the list of the values it pushed, in order, next to the
  updated instance.
\<close>

type_synonym byte = "8 word"

subsection \<open>Constants (lines 3-13)\<close>

definition FEND :: byte where "FEND = 192"
definition FESC :: byte where "FESC = 219"
definition TFEND :: byte where "TFEND = 220"
definition TFESC :: byte where "TFESC = 221"

text \<open>
  \<^verbatim>\<open>replacementMap[k]\<close>: the key is an element read from an array, so it is
  \<open>None\<close> (undefined) when the index is out of range; the result is undefined for
  every key other than the two transposed codes.
\<close>

definition replacementMap :: "byte option \<Rightarrow> byte option" where
  "replacementMap k =
     (if k = Some TFEND then Some FEND
      else if k = Some TFESC then Some FESC
      else None)"

definition ports :: string where
  "ports = ''0123456789ABCDEF''"

subsection \<open>Array primitives of JavaScript\<close>

text \<open>\<^verbatim>\<open>xs.indexOf(x)\<close>; \<open>None\<close> stands for -1.\<close>

fun indexOf :: "'a list \<Rightarrow> 'a \<Rightarrow> nat option" where
  "indexOf [] x = None"
| "indexOf (y # ys) x = (if y = x then Some 0 else map_option Suc (indexOf ys x))"

text \<open>\<^verbatim>\<open>xs[i]\<close>; \<open>None\<close> stands for undefined.\<close>

definition elem_at :: "'a list \<Rightarrow> nat \<Rightarrow> 'a option" where
  "elem_at xs i = (if i < length xs then Some (xs ! i) else None)"

text \<open>\<^verbatim>\<open>xs.splice(start, deleteCount, ...items)\<close>, the array after the call.\<close>

definition splice :: "'a list \<Rightarrow> nat \<Rightarrow> nat \<Rightarrow> 'a list \<Rightarrow> 'a list" where
  "splice xs start deleteCount items = take start xs @ items @ drop (start + deleteCount) xs"

subsection \<open>kissEscape (lines 43-61)\<close>

text \<open>
  \<^verbatim>\<open>(current === FEND) && TFEND\<close> is false or 220, and
  \<^verbatim>\<open>(current === FESC) && TFESC\<close> is false or 221; \<open>None\<close> stands for false, and
  \<open>js_or\<close> is \<^verbatim>\<open>||\<close> on such values (both codes are non-zero, hence truthy).
\<close>

definition js_or :: "'a option \<Rightarrow> 'a option \<Rightarrow> 'a option" where
  "js_or a b = (case a of Some x \<Rightarrow> Some x | None \<Rightarrow> b)"

definition foundEnd :: "byte \<Rightarrow> byte option" where
  "foundEnd current = (if current = FEND then Some TFEND else None)"

definition foundEscape :: "byte \<Rightarrow> byte option" where
  "foundEscape current = (if current = FESC then Some TFESC else None)"

function kissEscape_loop :: "byte list \<Rightarrow> nat \<Rightarrow> byte list" where
  "kissEscape_loop buf i =
     (if i < length buf then
        (case js_or (foundEnd (buf ! i)) (foundEscape (buf ! i)) of
           Some code \<Rightarrow> kissEscape_loop (splice buf i 1 [FESC, code]) (i + 2)
         | None \<Rightarrow> kissEscape_loop buf (i + 1))
      else buf)"
  by pat_completeness auto
termination
  by (relation "measure (\<lambda>(buf, i). length buf - i)") (auto simp: splice_def)

declare kissEscape_loop.simps [simp del]

definition kissEscape :: "byte list \<Rightarrow> byte list" where
  "kissEscape chunk = kissEscape_loop chunk 0"

subsection \<open>The escape-replacement loop of interpretMessage (lines 94-107)\<close>

function unescape_loop :: "byte list \<Rightarrow> byte list" where
  "unescape_loop content =
     (case indexOf content FESC of
        None \<Rightarrow> content
      | Some escapeIndex \<Rightarrow>
          (case replacementMap (elem_at content (escapeIndex + 1)) of
             Some replacement \<Rightarrow> unescape_loop (splice content escapeIndex 2 [replacement])
           | None \<Rightarrow> unescape_loop (splice content escapeIndex 2 [])))"
  by pat_completeness auto

lemma indexOf_Some_less: "indexOf xs x = Some i \<Longrightarrow> i < length xs"
  by (induction xs arbitrary: i) (auto split: if_splits)

lemma replacementMap_Some_at: "replacementMap (elem_at xs i) = Some r \<Longrightarrow> i < length xs"
  by (auto simp: replacementMap_def elem_at_def split: if_splits)

termination unescape_loop
proof (relation "measure length")
  show "wf (measure length)" by simp
next
  fix content :: "byte list" and escapeIndex replacement
  assume "indexOf content FESC = Some escapeIndex"
    and "replacementMap (elem_at content (escapeIndex + 1)) = Some replacement"
  then have "escapeIndex + 1 < length content"
    by (simp add: replacementMap_Some_at)
  then show "(splice content escapeIndex 2 [replacement], content) \<in> measure length"
    by (simp add: splice_def)
next
  fix content :: "byte list" and escapeIndex
  assume "indexOf content FESC = Some escapeIndex"
  then have "escapeIndex < length content"
    by (rule indexOf_Some_less)
  then show "(splice content escapeIndex 2 [], content) \<in> measure length"
    by (simp add: splice_def)
qed

declare unescape_loop.simps [simp del]

subsection \<open>KISSReceiver (lines 68-179)\<close>

text \<open>
  The instance: \<open>readableObjectMode\<close> is the stream option set by the constructor,
  \<open>unterminatedMessage\<close> is undefined (\<open>None\<close>) until \<^verbatim>\<open>_transform\<close> sets it.
\<close>

record receiver =
  readableObjectMode :: bool
  emitCommandByte :: bool
  unterminatedMessage :: "byte list option"

record receiver_opts =
  opt_emitCommandByte :: bool
  opt_emitObject :: bool

definition KISSReceiver_new :: "receiver_opts \<Rightarrow> receiver" where
  "KISSReceiver_new opts =
     \<lparr>readableObjectMode = opt_emitObject opts,
      emitCommandByte = opt_emitCommandByte opts,
      unterminatedMessage = None\<rparr>"

text \<open>What a receiver pushes: a Buffer, or in object mode an object with two fields.\<close>

record kiss_object =
  portIndex :: nat
  data :: "byte list"

datatype emitted = OutBuffer "byte list" | OutObject kiss_object

text \<open>
  \<^verbatim>\<open>commandByte >> 4\<close>, where the command byte is undefined for an empty message
  (\<^verbatim>\<open>undefined >> 4\<close> is 0), and the byte \<^verbatim>\<open>Buffer.from\<close> stores for it
  (0 for undefined).
\<close>

definition shift_right4 :: "byte option \<Rightarrow> nat" where
  "shift_right4 c = (case c of None \<Rightarrow> 0 | Some b \<Rightarrow> unat (drop_bit 4 b))"

definition byte_of :: "byte option \<Rightarrow> byte" where
  "byte_of c = (case c of None \<Rightarrow> 0 | Some b \<Rightarrow> b)"

definition interpretMessage :: "receiver \<Rightarrow> byte list \<Rightarrow> emitted" where
  "interpretMessage r message =
     (let commandByte = elem_at message 0;
          content = unescape_loop (drop 1 message)
      in if readableObjectMode r then
           OutObject \<lparr>portIndex = shift_right4 commandByte, data = content\<rparr>
         else if emitCommandByte r then OutBuffer (byte_of commandByte # content)
         else OutBuffer content)"

text \<open>
  The while loop of \<^verbatim>\<open>_transform\<close> (lines 136-151) on its three variables:
  \<open>received\<close>, \<open>this.unterminatedMessage\<close> and \<open>messages\<close>.
\<close>

function transform_loop ::
  "byte list \<Rightarrow> byte list option \<Rightarrow> byte list list
     \<Rightarrow> byte list \<times> byte list option \<times> byte list list" where
  "transform_loop received um messages =
     (case indexOf received FEND of
        None \<Rightarrow> (received, um, messages)
      | Some fendIndex \<Rightarrow>
          (let nextMessage = take fendIndex received;
               received' = drop (fendIndex + 1) received
           in if length nextMessage > 0 then
                (case um of
                   Some u \<Rightarrow> transform_loop received' None (messages @ [u @ nextMessage])
                 | None \<Rightarrow> transform_loop received' um (messages @ [nextMessage]))
              else transform_loop received' um messages))"
  by pat_completeness auto
termination
  by (relation "measure (\<lambda>(received, um, messages). length received)")
    (auto dest: indexOf_Some_less)

declare transform_loop.simps [simp del]

definition KISSReceiver_transform :: "receiver \<Rightarrow> byte list \<Rightarrow> receiver \<times> emitted list" where
  "KISSReceiver_transform r chunk =
     (let (messages0, um0) =
            (case unterminatedMessage r of
               Some u \<Rightarrow> if elem_at chunk 0 = Some FEND then ([u], None) else ([], Some u)
             | None \<Rightarrow> ([], None));
          (received, um1, messages) = transform_loop chunk um0 messages0;
          um2 = (if length received > 0 then Some received else um1)
      in (r\<lparr>unterminatedMessage := um2\<rparr>, map (interpretMessage r) messages))"

definition KISSReceiver_flush :: "receiver \<Rightarrow> emitted list" where
  "KISSReceiver_flush r =
     (case unterminatedMessage r of
        Some u \<Rightarrow>
          (let portIndex = shift_right4 (elem_at u 0)
           in if readableObjectMode r then [OutObject \<lparr>portIndex = portIndex, data = drop 1 u\<rparr>]
              else if emitCommandByte r then [OutBuffer u]
              else [OutBuffer (drop 1 u)])
      | None \<Rightarrow> [])"

text \<open>A stream: the chunks written one after the other, then the end of the input.\<close>

fun feed :: "receiver \<Rightarrow> byte list list \<Rightarrow> receiver \<times> emitted list" where
  "feed r [] = (r, [])"
| "feed r (chunk # chunks) =
     (let (r', out) = KISSReceiver_transform r chunk;
          (r'', outs) = feed r' chunks
      in (r'', out @ outs))"

definition run_stream :: "receiver_opts \<Rightarrow> byte list list \<Rightarrow> emitted list" where
  "run_stream opts chunks =
     (let (r, outs) = feed (KISSReceiver_new opts) chunks in outs @ KISSReceiver_flush r)"

subsection \<open>Values of JavaScript used by the KISSSender constructor\<close>

text \<open>
  \<open>opts.portIndex\<close> may hold any value; \<open>JUndefined\<close> is also what reading an
  absent property gives. Finite numbers are rationals.
\<close>

datatype js_value = JUndefined | JNull | JBool bool | JNumber rat | JNaN | JString string

fun truthy :: "js_value \<Rightarrow> bool" where
  "truthy JUndefined = False"
| "truthy JNull = False"
| "truthy (JBool b) = b"
| "truthy (JNumber x) = (x \<noteq> 0)"
| "truthy JNaN = False"
| "truthy (JString s) = (s \<noteq> [])"

text \<open>\<^verbatim>\<open>a || b\<close> on values.\<close>

definition js_or_value :: "js_value \<Rightarrow> js_value \<Rightarrow> js_value" where
  "js_or_value a b = (if truthy a then a else b)"

text \<open>\<^verbatim>\<open>Number.isInteger(v)\<close> holds exactly when the result is \<open>Some\<close> the integer.\<close>

fun isInteger :: "js_value \<Rightarrow> int option" where
  "isInteger (JNumber x) = (if of_int \<lfloor>x\<rfloor> = x then Some \<lfloor>x\<rfloor> else None)"
| "isInteger v = None"

text \<open>
  \<^verbatim>\<open>parseInt(s, 16)\<close> on a string that starts with neither white space, a sign nor
  \<^verbatim>\<open>0x\<close>: the value of the longest prefix of hexadecimal digits, NaN (\<open>None\<close>) when
  that prefix is empty.
\<close>

definition hexDigit :: "char \<Rightarrow> nat option" where
  "hexDigit c =
     (let n = (of_char c :: nat)
      in if 48 \<le> n \<and> n \<le> 57 then Some (n - 48)
         else if 65 \<le> n \<and> n \<le> 70 then Some (n - 55)
         else if 97 \<le> n \<and> n \<le> 102 then Some (n - 87)
         else None)"

fun parse_digits :: "string \<Rightarrow> nat option \<Rightarrow> nat option" where
  "parse_digits [] acc = acc"
| "parse_digits (c # cs) acc =
     (case hexDigit c of
        None \<Rightarrow> acc
      | Some d \<Rightarrow> parse_digits cs (Some (16 * (case acc of None \<Rightarrow> 0 | Some a \<Rightarrow> a) + d)))"

definition parseInt16 :: "string \<Rightarrow> nat option" where
  "parseInt16 s = parse_digits s None"

text \<open>
  The byte an element of the array given to \<^verbatim>\<open>Buffer.from\<close> becomes: the number
  truncated towards zero, modulo 256; 0 for NaN; 1 and 0 for true and false.
\<close>

definition js_trunc :: "rat \<Rightarrow> int" where
  "js_trunc x = (if x < 0 then \<lceil>x\<rceil> else \<lfloor>x\<rfloor>)"

definition uint8_of_number :: "rat \<Rightarrow> byte" where
  "uint8_of_number x = word_of_int (js_trunc x)"

definition uint8_of_parsed :: "nat option \<Rightarrow> byte" where
  "uint8_of_parsed n = (case n of None \<Rightarrow> 0 | Some k \<Rightarrow> of_nat k)"

subsection \<open>getCommandBuilder (lines 20-36)\<close>

datatype property = FullDuplex | Hardware | Persistence | SlotTime | TxDelay | TxTail

text \<open>The value of \<open>this[property]\<close> once the constructor has converted it.\<close>

datatype field_value = FBool bool | FNumber rat | FBuffer "byte list"

fun truthy_field :: "field_value \<Rightarrow> bool" where
  "truthy_field (FBool b) = b"
| "truthy_field (FNumber x) = (x \<noteq> 0)"
| "truthy_field (FBuffer bs) = True"

text \<open>\<^verbatim>\<open>`${ports[portIndex]}`\<close>, with \<open>port\<close> for the port index: the digit, or the text of
  undefined.\<close>

definition pidx :: "int \<Rightarrow> string" where
  "pidx port =
     (case (if 0 \<le> port then elem_at ports (nat port) else None) of
        Some c \<Rightarrow> [c]
      | None \<Rightarrow> ''undefined'')"

fun command_digit :: "property \<Rightarrow> char" where
  "command_digit FullDuplex = CHR ''5''"
| "command_digit Hardware = CHR ''6''"
| "command_digit Persistence = CHR ''2''"
| "command_digit SlotTime = CHR ''3''"
| "command_digit TxDelay = CHR ''1''"
| "command_digit TxTail = CHR ''4''"

definition commandBytes :: "int \<Rightarrow> property \<Rightarrow> nat option" where
  "commandBytes port command = parseInt16 (pidx port @ [command_digit command])"

text \<open>
  The returned closure, applied:
  \<^verbatim>\<open>values = value instanceof Buffer ? Array.from(value) : [value]\<close>, each element
  stored as a byte.
\<close>

definition getCommandBuilder :: "int \<Rightarrow> property \<Rightarrow> field_value \<Rightarrow> byte list" where
  "getCommandBuilder port command v =
     (let values =
            (case v of
               FBuffer bs \<Rightarrow> bs
             | FNumber x \<Rightarrow> [uint8_of_number x]
             | FBool b \<Rightarrow> [if b then 1 else 0])
      in [FEND, uint8_of_parsed (commandBytes port command)] @ values @ [FEND])"

subsection \<open>KISSSender (lines 184-255)\<close>

text \<open>
  The options object. \<open>None\<close> is a property the object does not own
  (\<^verbatim>\<open>Object.hasOwn\<close> false). The optional properties have the types the
  constructor documents: a boolean, a string or an array of numbers, and numbers, which
  are integers here (a persistence value, times in milliseconds). For an integer \<open>v\<close>
  below \<open>2 ^ 53\<close> in size, the double \<^verbatim>\<open>v / 10\<close> is zero exactly when the rational
  \<open>v / 10\<close> is, and truncates to the same integer.
\<close>

datatype hardware_value = HwString string | HwArray "int list"

record sender_opts =
  opt_portIndex :: js_value
  opt_fullDuplex :: "bool option"
  opt_hardware :: "hardware_value option"
  opt_persistence :: "int option"
  opt_slotTime :: "int option"
  opt_txDelay :: "int option"
  opt_txTail :: "int option"

text \<open>
  The instance. \<open>props\<close> holds the properties that line 220 and the lines after it
  assign, \<open>this[property]\<close>, as an association list.
\<close>

record sender =
  this_portIndex :: int
  dataStart :: "byte list"
  dataEnd :: "byte list"
  props :: "(property \<times> field_value) list"

text \<open>The two errors the constructor throws, lines 202 and 206.\<close>

datatype error = PortIndexNotInteger | PortIndexOutOfRange

definition properties :: "property list" where
  "properties = [FullDuplex, Hardware, Persistence, SlotTime, TxDelay, TxTail]"

text \<open>
  \<^verbatim>\<open>!!v && v / 10\<close> for the three times (line 223), and
  \<^verbatim>\<open>!!h && Buffer.from(h)\<close> for the hardware value (line 227): an empty string is
  falsy, an array is truthy even when empty. A string is the list of the bytes of its
  UTF-8 encoding, which is what \<^verbatim>\<open>Buffer.from\<close> stores.
\<close>

definition time_value :: "int \<Rightarrow> field_value" where
  "time_value v = (if v \<noteq> 0 then FNumber (of_int v / 10) else FBool False)"

fun hardware_buffer :: "hardware_value \<Rightarrow> field_value" where
  "hardware_buffer (HwString s) = (if s \<noteq> [] then FBuffer (map of_char s) else FBool False)"
| "hardware_buffer (HwArray ns) = FBuffer (map word_of_int ns)"

text \<open>
  \<open>this[property]\<close> as lines 220-228 leave it, for a property the options own.
\<close>

fun property_value :: "sender_opts \<Rightarrow> property \<Rightarrow> field_value option" where
  "property_value opts FullDuplex = map_option FBool (opt_fullDuplex opts)"
| "property_value opts Hardware = map_option hardware_buffer (opt_hardware opts)"
| "property_value opts Persistence = map_option (\<lambda>v. FNumber (of_int v)) (opt_persistence opts)"
| "property_value opts SlotTime = map_option time_value (opt_slotTime opts)"
| "property_value opts TxDelay = map_option time_value (opt_txDelay opts)"
| "property_value opts TxTail = map_option time_value (opt_txTail opts)"

text \<open>The body of the \<^verbatim>\<open>forEach\<close> (lines 215-233), on the instance and the frames pushed.\<close>

definition init_property ::
  "sender_opts \<Rightarrow> (property \<Rightarrow> field_value \<Rightarrow> byte list) \<Rightarrow> property
     \<Rightarrow> sender \<times> byte list list \<Rightarrow> sender \<times> byte list list" where
  "init_property opts outboundCommand property st =
     (case property_value opts property of
        None \<Rightarrow> st
      | Some v \<Rightarrow>
          (let this = (fst st)\<lparr>props := AList.update property v (props (fst st))\<rparr>
           in if truthy_field v then (this, snd st @ [outboundCommand property v])
              else (this, snd st)))"

definition KISSSender_new :: "sender_opts \<Rightarrow> error + sender \<times> byte list list" where
  "KISSSender_new opts =
     (let portIndex = js_or_value (opt_portIndex opts) (JNumber 0)
      in case isInteger portIndex of
           None \<Rightarrow> Inl PortIndexNotInteger
         | Some p \<Rightarrow>
             if p < 0 \<or> p > 15 then Inl PortIndexOutOfRange
             else
               (let this =
                      \<lparr>this_portIndex = p,
                       dataStart = [FEND, uint8_of_parsed (parseInt16 (pidx p @ ''0''))],
                       dataEnd = [FEND],
                       props = []\<rparr>;
                    outboundCommand = getCommandBuilder p
                in Inr (fold (init_property opts outboundCommand) properties (this, []))))"

definition KISSSender_transform :: "sender \<Rightarrow> byte list \<Rightarrow> byte list list" where
  "KISSSender_transform this chunk =
     (let escapedChunk = kissEscape chunk;
          frame = dataStart this @ escapedChunk @ dataEnd this
      in [frame])"

definition KISSSender_flush :: "sender \<Rightarrow> byte list list" where
  "KISSSender_flush this = [[FEND, 255, FEND]]"

section \<open>Notions used in the statements\<close>

subsection \<open>Inputs of the concrete statements\<close>

definition default_opts :: receiver_opts where
  "default_opts = \<lparr>opt_emitCommandByte = False, opt_emitObject = False\<rparr>"


definition no_opts :: sender_opts where
  "no_opts =
     \<lparr>opt_portIndex = JUndefined, opt_fullDuplex = None, opt_hardware = None,
      opt_persistence = None, opt_slotTime = None, opt_txDelay = None, opt_txTail = None\<rparr>"

definition port12_opts :: sender_opts where
  "port12_opts = no_opts\<lparr>opt_portIndex := JNumber 12\<rparr>"


definition persistence300_opts :: sender_opts where
  "persistence300_opts = no_opts\<lparr>opt_portIndex := JNumber 12, opt_persistence := Some 300\<rparr>"

subsection \<open>The escaper, byte by byte\<close>

text \<open>What kissEscape makes of one byte.\<close>

definition escape_byte :: "byte \<Rightarrow> byte list" where
  "escape_byte b = (if b = FEND then [FESC, TFEND] else if b = FESC then [FESC, TFESC] else [b])"

text \<open>
  \<open>self_contained pre\<close>: the loop of interpretMessage decodes \<open>pre\<close> without reading
  past its end, so that a byte 0xDB placed right after \<open>pre\<close> is met by the loop as an
  escape marker. It fails when a marker of \<open>pre\<close> is left without a following byte: a
  marker that is the last byte of \<open>pre\<close>, or the 0xDB that the loop writes for a final
  0xDB 0xDD and then reads again.
\<close>

fun self_contained :: "byte list \<Rightarrow> bool" where
  "self_contained [] = True"
| "self_contained [b] = (b \<noteq> FESC)"
| "self_contained (b # x # rest) =
     (if b \<noteq> FESC then self_contained (x # rest)
      else if x = TFESC then self_contained (FESC # rest)
      else self_contained rest)"

subsection \<open>Command bytes as the protocol numbers them\<close>

text \<open>
  The command byte of the specification, \<open>(portIndex << 4) | commandKind\<close>, with the
  command kinds 1 TX delay, 2 persistence, 3 slot time, 4 TX tail, 5 full duplex and
  6 hardware. The source builds these bytes by parsing two hexadecimal digits instead;
  \<open>commandBytes_eq\<close> below shows that both agree.
\<close>

definition command_byte :: "int \<Rightarrow> nat \<Rightarrow> byte" where
  "command_byte port kind = push_bit 4 (word_of_int port) OR of_nat kind"

fun command_kind :: "property \<Rightarrow> nat" where
  "command_kind FullDuplex = 5"
| "command_kind Hardware = 6"
| "command_kind Persistence = 2"
| "command_kind SlotTime = 3"
| "command_kind TxDelay = 1"
| "command_kind TxTail = 4"

text \<open>The frames of a list whose second byte, the command byte, is \<open>c\<close>.\<close>

definition frames_with_command :: "byte \<Rightarrow> byte list list \<Rightarrow> byte list list" where
  "frames_with_command c frames = filter (\<lambda>frame. elem_at frame 1 = Some c) frames"

text \<open>The frames the body of the \<^verbatim>\<open>forEach\<close> pushes for one property.\<close>

definition pushed_for :: "sender_opts \<Rightarrow> int \<Rightarrow> property \<Rightarrow> byte list list" where
  "pushed_for opts port property =
     (case property_value opts property of
        None \<Rightarrow> []
      | Some v \<Rightarrow> if truthy_field v then [getCommandBuilder port property v] else [])"

section \<open>The escaper\<close>

lemma kissEscape_loop_concat:
  "i \<le> length buf \<Longrightarrow> kissEscape_loop buf i = take i buf @ concat (map escape_byte (drop i buf))"
proof (induction buf i rule: kissEscape_loop.induct)
  case (1 buf i)
  show ?case
  proof (cases "i < length buf")
    case False
    with "1.prems" show ?thesis by (subst kissEscape_loop.simps) simp
  next
    case True
    then have d: "drop i buf = buf ! i # drop (Suc i) buf"
      by (simp add: Cons_nth_drop_Suc)
    show ?thesis
    proof (cases "js_or (foundEnd (buf ! i)) (foundEscape (buf ! i))")
      case None
      then have e: "escape_byte (buf ! i) = [buf ! i]"
        by (auto simp: js_or_def foundEnd_def foundEscape_def escape_byte_def split: if_splits)
      from True None have "kissEscape_loop buf i = kissEscape_loop buf (i + 1)"
        by (subst kissEscape_loop.simps) simp
      also have "\<dots> = take (i + 1) buf @ concat (map escape_byte (drop (i + 1) buf))"
        using "1.IH"(1) [OF True None] True by simp
      finally show ?thesis
        using True d e by (simp add: take_Suc_conv_app_nth)
    next
      case (Some code)
      then have e: "escape_byte (buf ! i) = [FESC, code]"
        by (auto simp: js_or_def foundEnd_def foundEscape_def escape_byte_def FEND_def FESC_def
            split: if_splits)
      let ?buf' = "splice buf i 1 [FESC, code]"
      have len: "i + 2 \<le> length ?buf'" using True by (simp add: splice_def)
      have tk: "take (i + 2) ?buf' = take i buf @ [FESC, code]"
        using True by (simp add: splice_def)
      have dr: "drop (i + 2) ?buf' = drop (Suc i) buf"
        using True by (simp add: splice_def)
      from True Some have "kissEscape_loop buf i = kissEscape_loop ?buf' (i + 2)"
        by (subst kissEscape_loop.simps) simp
      also have "\<dots> = take (i + 2) ?buf' @ concat (map escape_byte (drop (i + 2) ?buf'))"
        using "1.IH"(2) [OF True Some len] .
      finally show ?thesis
        using d e tk dr by simp
    qed
  qed
qed

text \<open>kissEscape replaces each byte on its own, left to right.\<close>

lemma kissEscape_concat: "kissEscape chunk = concat (map escape_byte chunk)"
  by (simp add: kissEscape_def kissEscape_loop_concat)

text \<open>
  C1. Unescaping an escaped payload does not give the payload back when it holds the
  escape marker 0xDB: kissEscape turns the one byte 0xDB into 0xDB 0xDD, the loop of
  interpretMessage replaces that pair by 0xDB, searches again from the start, finds the
  byte it has just written, and drops it as a malformed escape. The result is empty.
\<close>

theorem roundtrip_loses_FESC:
  "kissEscape [0xDB] = [0xDB, 0xDD] \<and> unescape_loop (kissEscape [0xDB]) = []"
  by code_simp

section \<open>The escape-replacement loop\<close>

lemma indexOf_None_iff: "indexOf xs x = None \<longleftrightarrow> x \<notin> set xs"
  by (induction xs) auto

lemma indexOf_append_first:
  "x \<notin> set pre \<Longrightarrow> indexOf (pre @ x # post) x = Some (length pre)"
  by (induction pre) auto

lemma indexOf_append_later:
  "x \<notin> set pre \<Longrightarrow> indexOf (pre @ s) x = map_option (\<lambda>i. length pre + i) (indexOf s x)"
proof (induction pre)
  case Nil
  show ?case by (cases "indexOf s x") simp_all
next
  case (Cons a pre)
  then show ?case by (cases "indexOf s x") auto
qed

lemma elem_at_append_right: "elem_at (pre @ s) (length pre + i) = elem_at s i"
  by (simp add: elem_at_def nth_append)

lemma splice_append_right:
  "splice (pre @ s) (length pre + i) n items = pre @ splice s i n items"
  by (simp add: splice_def)

lemma unescape_loop_no_FESC: "FESC \<notin> set content \<Longrightarrow> unescape_loop content = content"
  by (subst unescape_loop.simps) (simp add: indexOf_None_iff [THEN iffD2])

lemma unescape_loop_prefix:
  "FESC \<notin> set pre \<Longrightarrow> unescape_loop (pre @ s) = pre @ unescape_loop s"
proof (induction s rule: unescape_loop.induct)
  case (1 content)
  show ?case
  proof (cases "indexOf content FESC")
    case None
    then have "FESC \<notin> set (pre @ content)"
      using "1.prems" by (simp add: indexOf_None_iff)
    then show ?thesis
      using None by (simp add: unescape_loop_no_FESC indexOf_None_iff del: set_append)
  next
    case (Some i)
    have idx: "indexOf (pre @ content) FESC = Some (length pre + i)"
      using "1.prems" Some by (simp add: indexOf_append_later)
    show ?thesis
    proof (cases "replacementMap (elem_at content (i + 1))")
      case None
      have "unescape_loop (pre @ content) = unescape_loop (pre @ splice content i 2 [])"
        using idx None elem_at_append_right [of pre content "i + 1"]
        by (subst unescape_loop.simps) (simp add: splice_append_right add.assoc)
      also have "\<dots> = pre @ unescape_loop (splice content i 2 [])"
        using "1.IH"(1) [OF Some None "1.prems"] .
      also have "unescape_loop (splice content i 2 []) = unescape_loop content"
        using Some None by (subst (2) unescape_loop.simps) simp
      finally show ?thesis .
    next
      case (Some r)
      note rep = this
      have "unescape_loop (pre @ content) = unescape_loop (pre @ splice content i 2 [r])"
        using idx rep elem_at_append_right [of pre content "i + 1"]
        by (subst unescape_loop.simps) (simp add: splice_append_right add.assoc)
      also have "\<dots> = pre @ unescape_loop (splice content i 2 [r])"
        using "1.IH"(2) [OF \<open>indexOf content FESC = Some i\<close> rep "1.prems"] .
      also have "unescape_loop (splice content i 2 [r]) = unescape_loop content"
        using \<open>indexOf content FESC = Some i\<close> rep by (subst (2) unescape_loop.simps) simp
      finally show ?thesis .
    qed
  qed
qed

lemma unescape_loop_malformed_head:
  "x \<noteq> TFEND \<Longrightarrow> x \<noteq> TFESC \<Longrightarrow> unescape_loop (FESC # x # post) = unescape_loop post"
  by (subst unescape_loop.simps) (simp add: replacementMap_def elem_at_def splice_def)

lemma unescape_loop_TFEND_head:
  "unescape_loop (FESC # TFEND # post) = unescape_loop (FEND # post)"
  by (subst unescape_loop.simps) (simp add: replacementMap_def elem_at_def splice_def)

lemma unescape_loop_TFESC_head:
  "unescape_loop (FESC # TFESC # post) = unescape_loop (FESC # post)"
  by (subst unescape_loop.simps) (simp add: replacementMap_def elem_at_def splice_def TFEND_def TFESC_def)

lemma unescape_loop_trailing: "unescape_loop [FESC] = []"
  by (subst unescape_loop.simps, simp add: replacementMap_def elem_at_def splice_def)
     (simp add: unescape_loop_no_FESC)

lemma unescape_kissEscape_no_FESC:
  "FESC \<notin> set b \<Longrightarrow> unescape_loop (kissEscape b) = b"
proof (induction b)
  case Nil
  show ?case by (simp add: kissEscape_concat unescape_loop_no_FESC)
next
  case (Cons x b)
  then have IH: "unescape_loop (concat (map escape_byte b)) = b"
    by (simp add: kissEscape_concat)
  have ne: "FEND \<noteq> FESC" by (simp add: FEND_def FESC_def)
  show ?case
  proof (cases "x = FEND")
    case True
    have "unescape_loop (kissEscape (x # b)) = unescape_loop ([FEND] @ concat (map escape_byte b))"
      using True by (simp add: kissEscape_concat escape_byte_def unescape_loop_TFEND_head)
    also have "\<dots> = [FEND] @ unescape_loop (concat (map escape_byte b))"
      by (rule unescape_loop_prefix) (simp add: FEND_def FESC_def)
    finally show ?thesis using True IH by simp
  next
    case False
    moreover have "x \<noteq> FESC" using Cons.prems by auto
    ultimately have "unescape_loop (kissEscape (x # b)) = unescape_loop ([x] @ concat (map escape_byte b))"
      by (simp add: kissEscape_concat escape_byte_def)
    also have "\<dots> = [x] @ unescape_loop (concat (map escape_byte b))"
      using \<open>x \<noteq> FESC\<close> by (intro unescape_loop_prefix) simp
    finally show ?thesis using IH by simp
  qed
qed

lemma markers_distinct:
  "FEND \<noteq> FESC" "FESC \<noteq> FEND" "FESC \<noteq> TFEND" "TFEND \<noteq> FESC"
  "FESC \<noteq> TFESC" "TFESC \<noteq> FESC" "TFEND \<noteq> TFESC" "TFESC \<noteq> TFEND"
  by (simp_all add: FEND_def FESC_def TFEND_def TFESC_def)

text \<open>
  How far the round trip fails: the loop returns fewer bytes than the payload had as soon
  as the payload holds one 0xDB, so the round trip gives the payload back exactly when
  the payload holds no 0xDB.
\<close>

lemma roundtrip_lengths:
  "length (unescape_loop (kissEscape b)) \<le> length b
   \<and> length (unescape_loop (FESC # kissEscape b)) \<le> length b"
proof (induction b)
  case Nil
  show ?case by (simp add: kissEscape_concat unescape_loop_no_FESC unescape_loop_trailing)
next
  case (Cons x b)
  let ?e = "concat (map escape_byte b)"
  from Cons have g: "length (unescape_loop ?e) \<le> length b"
    and h: "length (unescape_loop (FESC # ?e)) \<le> length b"
    by (simp_all add: kissEscape_concat)
  note d = markers_distinct
  have pre: "\<And>y. y \<noteq> FESC \<Longrightarrow> unescape_loop (y # ?e) = y # unescape_loop ?e"
    using unescape_loop_prefix [of "[_]" ?e] by simp
  consider (fend) "x = FEND" | (fesc) "x = FESC" | (plain) "x \<noteq> FEND" "x \<noteq> FESC"
    by blast
  then show ?case
  proof cases
    case fend
    have "unescape_loop (kissEscape (x # b)) = FEND # unescape_loop ?e"
      using fend pre [of FEND]
      by (simp add: kissEscape_concat escape_byte_def unescape_loop_TFEND_head d)
    moreover have "unescape_loop (FESC # kissEscape (x # b)) = TFEND # unescape_loop ?e"
      using fend pre [of TFEND]
      by (simp add: kissEscape_concat escape_byte_def unescape_loop_malformed_head d)
    ultimately show ?thesis using g by simp
  next
    case fesc
    have "unescape_loop (kissEscape (x # b)) = unescape_loop (FESC # ?e)"
      using fesc
      by (simp add: kissEscape_concat escape_byte_def unescape_loop_TFESC_head d)
    moreover have "unescape_loop (FESC # kissEscape (x # b)) = TFESC # unescape_loop ?e"
      using fesc pre [of TFESC]
      by (simp add: kissEscape_concat escape_byte_def unescape_loop_malformed_head d)
    ultimately show ?thesis using g h by simp
  next
    case plain
    then have e: "kissEscape (x # b) = x # ?e"
      by (simp add: kissEscape_concat escape_byte_def)
    have 1: "unescape_loop (kissEscape (x # b)) = x # unescape_loop ?e"
      using plain pre [of x] by (simp add: e)
    have 2: "length (unescape_loop (FESC # x # ?e)) \<le> Suc (length b)"
    proof (cases "x = TFEND")
      case True
      then show ?thesis
        using g pre [of FEND] by (simp add: unescape_loop_TFEND_head d)
    next
      case False
      note nt = this
      show ?thesis
      proof (cases "x = TFESC")
        case True
        then show ?thesis using h by (simp add: unescape_loop_TFESC_head)
      next
        case False
        then show ?thesis using g nt by (simp add: unescape_loop_malformed_head)
      qed
    qed
    show ?thesis using 1 2 g by (simp add: e)
  qed
qed

lemma roundtrip_shorter:
  "FESC \<in> set b \<Longrightarrow> length (unescape_loop (kissEscape b)) < length b"
proof (induction b)
  case Nil
  then show ?case by simp
next
  case (Cons x b)
  let ?e = "concat (map escape_byte b)"
  show ?case
  proof (cases "x = FESC")
    case True
    have "unescape_loop (kissEscape (x # b)) = unescape_loop (FESC # kissEscape b)"
      using True
      by (simp add: kissEscape_concat escape_byte_def unescape_loop_TFESC_head markers_distinct)
    then show ?thesis
      using roundtrip_lengths [of b] by simp
  next
    case False
    then have in_b: "FESC \<in> set b" using Cons.prems by simp
    have "unescape_loop (kissEscape (x # b)) = x # unescape_loop (kissEscape b)"
    proof (cases "x = FEND")
      case True
      then show ?thesis
        using unescape_loop_prefix [of "[FEND]" ?e]
        by (simp add: kissEscape_concat escape_byte_def unescape_loop_TFEND_head
            markers_distinct)
    next
      case False
      then show ?thesis
        using \<open>x \<noteq> FESC\<close> unescape_loop_prefix [of "[x]" ?e]
        by (simp add: kissEscape_concat escape_byte_def)
    qed
    then show ?thesis
      using Cons.IH [OF in_b] by simp
  qed
qed

lemma roundtrip_iff_no_FESC:
  "unescape_loop (kissEscape b) = b \<longleftrightarrow> FESC \<notin> set b"
proof
  assume "unescape_loop (kissEscape b) = b"
  then have "\<not> length (unescape_loop (kissEscape b)) < length b" by simp
  then show "FESC \<notin> set b" using roundtrip_shorter by blast
next
  assume "FESC \<notin> set b"
  then show "unescape_loop (kissEscape b) = b" by (rule unescape_kissEscape_no_FESC)
qed

lemma no_FESC_self_contained: "FESC \<notin> set pre \<Longrightarrow> self_contained pre"
  by (induction pre rule: self_contained.induct) auto




section \<open>The decoder\<close>

text \<open>
  C2. The three chunks 0xC0 0xA0, then hello, then 0xC0 in default mode emit the bytes
  of ello: the second chunk holds no marker, so line 154 replaces the buffered 0xA0 by
  the chunk, and the h is then taken for the command byte. The same bytes in one chunk
  emit hello.
\<close>

theorem split_chunks_lose_buffer:
  "snd (feed (KISSReceiver_new default_opts) [[0xC0, 0xA0], map of_char ''hello'', [0xC0]])
     = [OutBuffer (map of_char ''ello'')]
   \<and> snd (feed (KISSReceiver_new default_opts) [[0xC0, 0xA0] @ map of_char ''hello'' @ [0xC0]])
     = [OutBuffer (map of_char ''hello'')]"
  by code_simp

text \<open>
  C4. At the end of the input the buffered run 0xA0 0xDB 0xDC is emitted as 0xDB 0xDC:
  the command byte is stripped, the escape sequence is left as it is. The same run closed
  by a marker is emitted as 0xC0.
\<close>

theorem flush_does_not_unescape:
  "run_stream default_opts [[0xA0, 0xDB, 0xDC]] = [OutBuffer [0xDB, 0xDC]]
   \<and> run_stream default_opts [[0xA0, 0xDB, 0xDC, 0xC0]] = [OutBuffer [0xC0]]"
  by code_simp

text \<open>
  What does hold at the end of the input: a buffered run is pushed as exactly one
  message, and it is the message interpretMessage returns when the run holds no 0xDB
  after its command byte.
\<close>

lemma flush_one_message:
  "unterminatedMessage r = Some u \<Longrightarrow> length (KISSReceiver_flush r) = 1"
  by (simp add: KISSReceiver_flush_def Let_def)

lemma flush_interprets_without_FESC:
  assumes "unterminatedMessage r = Some u" and "u \<noteq> []" and "FESC \<notin> set (drop 1 u)"
  shows "KISSReceiver_flush r = [interpretMessage r u]"
proof -
  obtain c content where u: "u = c # content" using assms(2) by (cases u) auto
  then show ?thesis
    using assms(1,3)
    by (simp add: KISSReceiver_flush_def interpretMessage_def Let_def elem_at_def byte_of_def
        unescape_loop_no_FESC)
qed

subsection \<open>The loop of \<^verbatim>\<open>_transform\<close>, marker by marker\<close>

lemma transform_loop_no_FEND:
  "FEND \<notin> set received \<Longrightarrow> transform_loop received um messages = (received, um, messages)"
  by (subst transform_loop.simps) (simp add: indexOf_None_iff [THEN iffD2])

lemma transform_loop_first_FEND:
  assumes "FEND \<notin> set xs"
  shows "transform_loop (xs @ FEND # rest) um messages =
           (if xs = [] then transform_loop rest um messages
            else transform_loop rest None
                   (messages @ [(case um of Some u \<Rightarrow> u | None \<Rightarrow> []) @ xs]))"
  using assms
  by (subst transform_loop.simps)
     (simp add: indexOf_append_first Let_def split: option.splits)

lemma transform_loop_adjacent:
  "transform_loop (xs @ FEND # FEND # ys) um messages
     = transform_loop (xs @ FEND # ys) um messages"
proof (induction xs arbitrary: um messages rule: length_induct)
  case (1 xs)
  have skip: "\<And>um messages. transform_loop (FEND # ys) um messages = transform_loop ys um messages"
    using transform_loop_first_FEND [of "[]" ys] by simp
  show ?case
  proof (cases "FEND \<in> set xs")
    case False
    then show ?thesis
      by (simp add: transform_loop_first_FEND skip)
  next
    case True
    then obtain a b where xs: "xs = a @ FEND # b" and a: "FEND \<notin> set a"
      by (auto dest: split_list_first)
    have "length b < length xs" using xs by simp
    then have IH: "\<And>um messages. transform_loop (b @ FEND # FEND # ys) um messages
        = transform_loop (b @ FEND # ys) um messages"
      using "1.IH" by blast
    show ?thesis
      using a by (simp add: xs transform_loop_first_FEND IH)
  qed
qed

lemma elem_at_0_append_FEND:
  "elem_at (xs @ FEND # FEND # ys) 0 = elem_at (xs @ FEND # ys) 0"
  by (cases xs) (simp_all add: elem_at_def)

lemma transform_adjacent:
  "KISSReceiver_transform r (xs @ FEND # FEND # ys) = KISSReceiver_transform r (xs @ FEND # ys)"
  unfolding KISSReceiver_transform_def
  by (simp only: elem_at_0_append_FEND transform_loop_adjacent)

lemma transform_loop_None:
  "fst (snd (transform_loop received None messages)) = None"
proof (induction received arbitrary: messages rule: length_induct)
  case (1 received)
  show ?case
  proof (cases "FEND \<in> set received")
    case False
    then show ?thesis by (simp add: transform_loop_no_FEND)
  next
    case True
    then obtain a b where xs: "received = a @ FEND # b" and a: "FEND \<notin> set a"
      by (auto dest: split_list_first)
    have "length b < length received" using xs by simp
    then have IH: "\<And>messages. fst (snd (transform_loop b None messages)) = None"
      using "1.IH" by blast
    show ?thesis
      using a by (simp add: xs transform_loop_first_FEND IH)
  qed
qed

lemma transform_loop_content_first:
  assumes "received \<noteq> []" and "hd received \<noteq> FEND" and "FEND \<in> set received"
  shows "fst (snd (transform_loop received um messages)) = None"
proof -
  from assms(3) obtain a b where xs: "received = a @ FEND # b" and a: "FEND \<notin> set a"
    by (auto dest: split_list_first)
  with assms(1,2) have "a \<noteq> []" by (cases a) auto
  then show ?thesis
    using a by (simp add: xs transform_loop_first_FEND transform_loop_None)
qed

lemma transform_loop_ends_with_FEND:
  "fst (transform_loop (xs @ [FEND]) um messages) = []"
proof (induction xs arbitrary: um messages rule: length_induct)
  case (1 xs)
  show ?case
  proof (cases "FEND \<in> set xs")
    case False
    then show ?thesis
      by (simp add: transform_loop_first_FEND transform_loop_no_FEND)
  next
    case True
    then obtain a b where xs: "xs = a @ FEND # b" and a: "FEND \<notin> set a"
      by (auto dest: split_list_first)
    have "length b < length xs" using xs by simp
    then have IH: "\<And>um messages. fst (transform_loop (b @ [FEND]) um messages) = []"
      using "1.IH" by blast
    show ?thesis
      using a by (simp add: xs transform_loop_first_FEND IH)
  qed
qed

lemma transform_closed_chunk_clears:
  "unterminatedMessage (fst (KISSReceiver_transform r (xs @ [FEND]))) = None"
proof -
  let ?chunk = "xs @ [FEND]"
  obtain messages0 um0 where init:
    "(case unterminatedMessage r of
        Some u \<Rightarrow> if elem_at ?chunk 0 = Some FEND then ([u], None) else ([], Some u)
      | None \<Rightarrow> ([], None)) = (messages0, um0)"
    by (cases "case unterminatedMessage r of
        Some u \<Rightarrow> if elem_at ?chunk 0 = Some FEND then ([u], None) else ([], Some u)
      | None \<Rightarrow> ([], None)") auto
  have um1: "fst (snd (transform_loop ?chunk um0 messages0)) = None"
  proof (cases "um0")
    case None
    then show ?thesis by (simp add: transform_loop_None)
  next
    case (Some u)
    with init have "elem_at ?chunk 0 \<noteq> Some FEND"
      by (auto split: option.splits if_splits)
    then have "hd ?chunk \<noteq> FEND"
      by (cases xs) (auto simp: elem_at_def)
    then show ?thesis
      by (intro transform_loop_content_first) simp_all
  qed
  obtain received um1 messages where loop:
    "transform_loop ?chunk um0 messages0 = (received, um1, messages)"
    by (cases "transform_loop ?chunk um0 messages0") auto
  have "received = []"
    using transform_loop_ends_with_FEND [of xs um0 messages0] loop by simp
  moreover have "um1 = None" using um1 loop by simp
  ultimately show ?thesis
    using init loop by (simp add: KISSReceiver_transform_def)
qed

lemma transform_leading_FEND_idle:
  "unterminatedMessage r = None \<Longrightarrow>
     KISSReceiver_transform r (FEND # ys) = KISSReceiver_transform r ys"
  using transform_loop_first_FEND [of "[]" ys None "[]"]
  by (simp add: KISSReceiver_transform_def)

lemma feed_adjacent_across_chunks:
  "feed r [xs @ [FEND], FEND # ys] = feed r [xs @ [FEND], ys]"
proof -
  obtain r' out where t: "KISSReceiver_transform r (xs @ [FEND]) = (r', out)"
    by (cases "KISSReceiver_transform r (xs @ [FEND])") auto
  then have "unterminatedMessage r' = None"
    using transform_closed_chunk_clears [of r xs] by simp
  then show ?thesis
    using t by (simp add: transform_leading_FEND_idle)
qed


lemma replicate_FEND_idle:
  "unterminatedMessage r = None \<Longrightarrow> KISSReceiver_transform r (replicate n FEND) = (r, [])"
proof (induction n)
  case 0
  then show ?case by (simp add: KISSReceiver_transform_def transform_loop_no_FEND)
next
  case (Suc n)
  then show ?case by (simp add: transform_leading_FEND_idle)
qed



lemma feed_append:
  "feed r (before @ after) =
     (let (r', out) = feed r before; (r'', outs) = feed r' after in (r'', out @ outs))"
  by (induction before arbitrary: r) (simp_all add: split_beta Let_def)

lemma feed_cong_tail:
  assumes "feed r' chunks = feed r' chunks'"
  shows "feed r' (chunks @ after) = feed r' (chunks' @ after)"
  by (simp add: feed_append assms)

text \<open>
  C8. Consecutive boundary markers cause no message, in every sequence of chunks and
  from every state of the receiver. Within a chunk, a marker that follows a marker
  changes neither the messages pushed nor the state reached. Across chunks, when a chunk
  ends with a marker, a marker at the head of the next chunk changes neither. A chunk of
  markers only, given to a new receiver, pushes nothing and leaves it as it was.
  KISSReceiver_transform has no error result.
\<close>

theorem adjacent_markers_emit_nothing:
  "feed r (before @ (xs @ FEND # FEND # ys) # after) = feed r (before @ (xs @ FEND # ys) # after)
   \<and> feed r (before @ (xs @ [FEND]) # (FEND # ys) # after)
       = feed r (before @ (xs @ [FEND]) # ys # after)
   \<and> KISSReceiver_transform (KISSReceiver_new opts) (replicate n FEND)
       = (KISSReceiver_new opts, [])"
proof -
  have 1: "feed r (before @ (xs @ FEND # FEND # ys) # after)
      = feed r (before @ (xs @ FEND # ys) # after)"
    by (simp add: feed_append transform_adjacent)
  have "feed r' ([xs @ [FEND], FEND # ys] @ after) = feed r' ([xs @ [FEND], ys] @ after)" for r'
    by (rule feed_cong_tail) (rule feed_adjacent_across_chunks)
  then have 2: "feed r (before @ (xs @ [FEND]) # (FEND # ys) # after)
       = feed r (before @ (xs @ [FEND]) # ys # after)"
    by (simp add: feed_append [of r before])
  have "unterminatedMessage (KISSReceiver_new opts) = None"
    by (simp add: KISSReceiver_new_def)
  then have 3: "KISSReceiver_transform (KISSReceiver_new opts) (replicate n FEND)
       = (KISSReceiver_new opts, [])"
    by (rule replicate_FEND_idle)
  from 1 2 3 show ?thesis by blast
qed



section \<open>The encoder\<close>

text \<open>
  C3. With no portIndex property the constructor does not throw: line 199 replaces the
  absent value by 0, and the sender is built for port 0 with no initialization frame.
\<close>

theorem absent_portIndex_constructs:
  "KISSSender_new no_opts =
     Inr (\<lparr>this_portIndex = 0, dataStart = [0xC0, 0x00], dataEnd = [0xC0], props = []\<rparr>, [])"
  by code_simp

text \<open>
  When the constructor throws: the value of portIndex is truthy, and it is not an
  integer or it is an integer outside 0 to 15. A falsy value (absent, undefined, null,
  false, 0, NaN, the empty string) is replaced by 0 first.
\<close>

lemma KISSSender_new_throws_iff:
  "(\<exists>e. KISSSender_new opts = Inl e) \<longleftrightarrow>
     truthy (opt_portIndex opts)
     \<and> (case isInteger (opt_portIndex opts) of None \<Rightarrow> True | Some p \<Rightarrow> p < 0 \<or> 15 < p)"
  by (cases "truthy (opt_portIndex opts)")
    (auto simp: KISSSender_new_def js_or_value_def Let_def split: option.splits)

subsection \<open>The command bytes built from hexadecimal digits\<close>

lemma commandBytes_table:
  "\<forall>p\<in>set [0..<16]. \<forall>command\<in>set properties.
     uint8_of_parsed (commandBytes (int p) command) = command_byte (int p) (command_kind command)"
  by code_simp

lemma dataStart_table:
  "\<forall>p\<in>set [0..<16]. uint8_of_parsed (parseInt16 (pidx (int p) @ ''0'')) = command_byte (int p) 0"
  by code_simp

lemma command_byte_distinct_table:
  "\<forall>p\<in>set [0..<16]. \<forall>c\<in>set properties. \<forall>c'\<in>set properties.
     command_byte (int p) (command_kind c) = command_byte (int p) (command_kind c') \<longrightarrow> c = c'"
  by code_simp

lemma port_in_table: "0 \<le> p \<Longrightarrow> p \<le> 15 \<Longrightarrow> nat p \<in> set [0..<16] \<and> int (nat p) = p"
  by auto

lemma property_in_properties: "command \<in> set properties"
  by (cases command) (simp_all add: properties_def)

lemma commandBytes_eq:
  assumes "0 \<le> p" and "p \<le> 15"
  shows "uint8_of_parsed (commandBytes p command) = command_byte p (command_kind command)"
  using commandBytes_table port_in_table [OF assms] property_in_properties [of command]
  by metis

lemma dataStart_eq:
  assumes "0 \<le> p" and "p \<le> 15"
  shows "uint8_of_parsed (parseInt16 (pidx p @ ''0'')) = command_byte p 0"
  using dataStart_table port_in_table [OF assms] by metis

lemma command_byte_inj:
  assumes "0 \<le> p" and "p \<le> 15"
    and "command_byte p (command_kind c) = command_byte p (command_kind c')"
  shows "c = c'"
  using command_byte_distinct_table port_in_table [OF assms(1,2)] assms(3)
    property_in_properties [of c] property_in_properties [of c']
  by metis

subsection \<open>The frames pushed by the constructor\<close>

lemma init_property_fst:
  "this_portIndex (fst (init_property opts b property st)) = this_portIndex (fst st)
   \<and> dataStart (fst (init_property opts b property st)) = dataStart (fst st)
   \<and> dataEnd (fst (init_property opts b property st)) = dataEnd (fst st)"
  by (simp add: init_property_def Let_def split: option.splits)

lemma init_property_snd:
  "snd (init_property opts (getCommandBuilder p) property st) = snd st @ pushed_for opts p property"
  by (simp add: init_property_def pushed_for_def Let_def split: option.splits)

lemma fold_init_property_fst:
  "this_portIndex (fst (fold (init_property opts b) ps st)) = this_portIndex (fst st)
   \<and> dataStart (fst (fold (init_property opts b) ps st)) = dataStart (fst st)
   \<and> dataEnd (fst (fold (init_property opts b) ps st)) = dataEnd (fst st)"
  by (induction ps arbitrary: st) (simp_all add: init_property_fst)

lemma fold_init_property_snd:
  "snd (fold (init_property opts (getCommandBuilder p)) ps st)
     = snd st @ concat (map (pushed_for opts p) ps)"
  by (induction ps arbitrary: st) (simp_all add: init_property_snd)

lemma KISSSender_new_Inr:
  assumes "KISSSender_new opts = Inr (this, frames)"
  shows "0 \<le> this_portIndex this \<and> this_portIndex this \<le> 15
       \<and> isInteger (js_or_value (opt_portIndex opts) (JNumber 0)) = Some (this_portIndex this)
       \<and> dataStart this = [FEND, command_byte (this_portIndex this) 0]
       \<and> dataEnd this = [FEND]
       \<and> frames = concat (map (pushed_for opts (this_portIndex this)) properties)"
proof -
  from assms obtain p where
    p: "isInteger (js_or_value (opt_portIndex opts) (JNumber 0)) = Some p"
    and range: "0 \<le> p" "p \<le> 15"
    and st: "(this, frames) =
      fold (init_property opts (getCommandBuilder p)) properties
        (\<lparr>this_portIndex = p,
          dataStart = [FEND, uint8_of_parsed (parseInt16 (pidx p @ ''0''))],
          dataEnd = [FEND], props = []\<rparr>, [])"
    by (auto simp: KISSSender_new_def Let_def split: option.splits if_splits)
  have "this = fst (this, frames)" "frames = snd (this, frames)" by simp_all
  then show ?thesis
    unfolding st
    using p range
    by (simp add: fold_init_property_fst fold_init_property_snd dataStart_eq)
qed

lemma KISSSender_new_valid:
  assumes "opt_portIndex opts = JNumber (of_int p)" and "0 \<le> p" and "p \<le> 15"
  shows "\<exists>this. KISSSender_new opts = Inr (this, concat (map (pushed_for opts p) properties))
               \<and> this_portIndex this = p"
proof -
  have int: "isInteger (js_or_value (opt_portIndex opts) (JNumber 0)) = Some p"
    using assms(1) by (simp add: js_or_value_def)
  define st where "st = fold (init_property opts (getCommandBuilder p)) properties
        (\<lparr>this_portIndex = p,
          dataStart = [FEND, uint8_of_parsed (parseInt16 (pidx p @ ''0''))],
          dataEnd = [FEND], props = []\<rparr>, [])"
  have "KISSSender_new opts = Inr st"
    using int assms(2,3) by (simp add: KISSSender_new_def st_def)
  then have r: "KISSSender_new opts = Inr (fst st, snd st)" by simp
  have "this_portIndex (fst st) = p"
    by (simp add: st_def fold_init_property_fst)
  with KISSSender_new_Inr [OF r] r show ?thesis by auto
qed

lemma frames_with_command_pushed_for:
  assumes "0 \<le> p" and "p \<le> 15"
  shows "frames_with_command (command_byte p (command_kind c)) (pushed_for opts p c')
           = (if c' = c then pushed_for opts p c else [])"
proof -
  have "elem_at (getCommandBuilder p c' v) 1 = Some (command_byte p (command_kind c'))" for v
    using assms by (simp add: getCommandBuilder_def elem_at_def commandBytes_eq)
  then show ?thesis
    using command_byte_inj [OF assms, of c' c]
    by (auto simp: frames_with_command_def pushed_for_def split: option.splits)
qed

lemma frames_with_command_append:
  "frames_with_command c (fs @ gs) = frames_with_command c fs @ frames_with_command c gs"
  by (simp add: frames_with_command_def)

lemma frames_with_command_init:
  assumes "0 \<le> p" and "p \<le> 15"
  shows "frames_with_command (command_byte p (command_kind c))
           (concat (map (pushed_for opts p) properties)) = pushed_for opts p c"
proof -
  let ?f = "\<lambda>c'. if c' = c then pushed_for opts p c else []"
  have "frames_with_command (command_byte p (command_kind c))
           (concat (map (pushed_for opts p) properties))
        = ?f FullDuplex @ ?f Hardware @ ?f Persistence @ ?f SlotTime @ ?f TxDelay @ ?f TxTail"
    by (simp only: properties_def list.map concat.simps append_Nil2
        frames_with_command_append frames_with_command_pushed_for [OF assms])
  also have "\<dots> = pushed_for opts p c"
    by (cases c) simp_all
  finally show ?thesis .
qed


lemma pushed_for_persistence:
  assumes "0 \<le> p" and "p \<le> 15"
  shows "pushed_for opts p Persistence =
           (case opt_persistence opts of
              None \<Rightarrow> []
            | Some v \<Rightarrow> if v = 0 then []
                        else [[FEND, command_byte p 2, word_of_int v, FEND]])"
  using commandBytes_eq [OF assms, of Persistence]
  by (simp add: pushed_for_def getCommandBuilder_def uint8_of_number_def js_trunc_def
      split: option.splits)

text \<open>
  C5. Every write to a constructed sender pushes exactly one frame: the marker 0xC0,
  the data command byte \<open>(portIndex << 4) | 0\<close>, the payload as kissEscape returns it,
  which is the payload with each byte escaped on its own, and the marker 0xC0. The port
  index of a constructed sender is between 0 and 15.
\<close>

theorem data_frame_per_write:
  assumes "KISSSender_new opts = Inr (this, frames)"
  shows "KISSSender_transform this payload =
           [[FEND, push_bit 4 (word_of_int (this_portIndex this)) OR 0]
              @ kissEscape payload @ [FEND]]
       \<and> kissEscape payload = concat (map escape_byte payload)
       \<and> 0 \<le> this_portIndex this \<and> this_portIndex this \<le> 15"
  using KISSSender_new_Inr [OF assms]
  by (simp add: KISSSender_transform_def command_byte_def kissEscape_concat)

text \<open>With portIndex 12, writing 0xC0 0xDB pushes 0xC0 0xC0 0xDB 0xDC 0xDB 0xDD 0xC0.\<close>

theorem data_frame_port_12:
  "KISSSender_new port12_opts =
     Inr (\<lparr>this_portIndex = 12, dataStart = [0xC0, 0xC0], dataEnd = [0xC0], props = []\<rparr>, [])
   \<and> KISSSender_transform
       \<lparr>this_portIndex = 12, dataStart = [0xC0, 0xC0], dataEnd = [0xC0], props = []\<rparr> [0xC0, 0xDB]
     = [[0xC0, 0xC0, 0xDB, 0xDC, 0xDB, 0xDD, 0xC0]]"
proof -
  let ?s = "\<lparr>this_portIndex = 12, dataStart = [0xC0, 0xC0], dataEnd = [0xC0], props = []\<rparr>"
  have h: "KISSSender_new port12_opts = Inr (?s, [])"
    by code_simp
  have a: "KISSSender_transform ?s [0xC0, 0xDB] =
           [[FEND, push_bit 4 (word_of_int (this_portIndex ?s)) OR 0]
              @ kissEscape [0xC0, 0xDB] @ [FEND]]"
    using data_frame_per_write [OF h, of "[0xC0, 0xDB]"] by (rule conjunct1)
  have b: "[[FEND, push_bit 4 (word_of_int (this_portIndex ?s)) OR 0]
              @ kissEscape [0xC0, 0xDB] @ [FEND]] = [[0xC0, 0xC0, 0xDB, 0xDC, 0xDB, 0xDD, 0xC0]]"
    by code_simp
  show ?thesis
    by (rule conjI [OF h trans [OF a b]])
qed

text \<open>
  The byte sent for a time of \<open>v\<close> milliseconds is \<open>v / 10\<close> truncated, modulo 256.
\<close>

lemma uint8_of_tenth:
  "0 \<le> v \<Longrightarrow> uint8_of_number (of_int v / 10) = word_of_int (v div 10)"
proof -
  assume "0 \<le> v"
  then have "\<not> (of_int v / 10 :: rat) < 0" by simp
  moreover have "\<lfloor>of_int v / (of_int 10 :: rat)\<rfloor> = v div 10"
    by (rule floor_divide_of_int_eq)
  ultimately show ?thesis
    by (simp add: uint8_of_number_def js_trunc_def)
qed



lemma unat_byte_of_int: "unat (word_of_int v :: byte) = nat (v mod 256)"
  by (simp add: unsigned_of_int take_bit_eq_mod)

text \<open>
  C10. With a supplied integer port index between 0 and 15 and a persistence value
  other than 0, in particular one outside 0 to 255, the constructor succeeds, and the
  frames it pushes with the persistence command byte are the one frame made of the marker,
  the command byte, one value byte and the marker; the value byte is the value modulo
  256.
\<close>

theorem persistence_modulo_256:
  assumes "opt_portIndex opts = JNumber (of_int p)" and "0 \<le> p" and "p \<le> 15"
    and "opt_persistence opts = Some v" and "v \<noteq> 0"
  shows "map_sum id (\<lambda>(this, frames). frames_with_command (command_byte p 2) frames)
           (KISSSender_new opts)
         = Inr [[FEND, command_byte p 2, word_of_int v, FEND]]
       \<and> unat (word_of_int v :: byte) = nat (v mod 256)"
proof -
  from KISSSender_new_valid [OF assms(1-3)] obtain this where
    new: "KISSSender_new opts = Inr (this, concat (map (pushed_for opts p) properties))"
    by blast
  have "frames_with_command (command_byte p (command_kind Persistence))
          (concat (map (pushed_for opts p) properties)) = pushed_for opts p Persistence"
    by (rule frames_with_command_init [OF assms(2,3)])
  then have "frames_with_command (command_byte p 2)
          (concat (map (pushed_for opts p) properties))
        = [[FEND, command_byte p 2, word_of_int v, FEND]]"
    using assms(4,5) by (simp add: pushed_for_persistence [OF assms(2,3)])
  then show ?thesis
    by (simp add: new unat_byte_of_int)
qed

text \<open>With portIndex 12 and persistence 300 the value byte is 44.\<close>

theorem persistence_300_frame:
  "opt_portIndex persistence300_opts = JNumber (of_int 12) \<and> (0::int) \<le> 12 \<and> (12::int) \<le> 15
   \<and> opt_persistence persistence300_opts = Some 300 \<and> (300::int) \<noteq> 0
   \<and> map_sum id (\<lambda>(this, frames). frames_with_command 0xC2 frames)
        (KISSSender_new persistence300_opts) = Inr [[0xC0, 0xC2, 0x2C, 0xC0]]
   \<and> unat (word_of_int 300 :: byte) = 44"
proof -
  have h1: "opt_portIndex persistence300_opts = JNumber (of_int 12)"
    by (simp add: persistence300_opts_def no_opts_def)
  have h2: "(0::int) \<le> 12" and h3: "(12::int) \<le> 15" and h5: "(300::int) \<noteq> 0"
    by simp_all
  have h4: "opt_persistence persistence300_opts = Some 300"
    by (simp add: persistence300_opts_def no_opts_def)
  have c: "command_byte 12 2 = 0xC2" "[[FEND, 0xC2, word_of_int 300, FEND]] = [[0xC0, 0xC2, 0x2C, 0xC0]]"
    "nat (300 mod 256) = 44"
    by code_simp+
  have "map_sum id (\<lambda>(this, frames). frames_with_command (command_byte 12 2) frames)
           (KISSSender_new persistence300_opts)
         = Inr [[FEND, command_byte 12 2, word_of_int 300, FEND]]
       \<and> unat (word_of_int 300 :: byte) = nat (300 mod 256)"
    by (rule persistence_modulo_256 [OF h1 h2 h3 h4 h5])
  then have "map_sum id (\<lambda>(this, frames). frames_with_command 0xC2 frames)
        (KISSSender_new persistence300_opts) = Inr [[0xC0, 0xC2, 0x2C, 0xC0]]
   \<and> unat (word_of_int 300 :: byte) = 44"
    by (simp only: c)
  with h1 h2 h3 h4 h5 show ?thesis
    by blast
qed

end
